theory Spec2Isabelle
  imports Main "HOL-Library.Multiset"
begin

section \<open>The catalogue and the constants of \<^verbatim>\<open>loteria_generator.py\<close>\<close>

text \<open>
  The 36 labels of \<^verbatim>\<open>ITEMS\<close>. A Python \<^verbatim>\<open>str\<close> is a sequence of code points; every
  code point of the catalogue is below 256, so a label is a \<^typ>\<open>string\<close> with one
  \<^typ>\<open>char\<close> per code point (the accented capitals are written by their code point).
\<close>

definition ITEMS :: "string list" where
  "ITEMS =
    [''01 PATAC'' @ [CHR 0xD3] @ ''N DE GUINEO VERDE'',
    ''02 ALEGR'' @ [CHR 0xCD] @ ''A DE COCO Y AN'' @ [CHR 0xCD] @ ''S'',
    ''03 BOLLO DE MA'' @ [CHR 0xCD] @ ''Z'',
    ''04 CABALLITO DE PAPAYA'',
    ''05 SANCOCHO DE PESCADO'',
    ''06 MAZAMORRA DE GUINEO'',
    ''07 COCADA DE PANELA Y COCO'',
    ''08 MOJARRA FRITA'',
    ''09 TINAJERO'',
    ''10 PIEDRA DE FILTRAR'',
    ''11 TINAJA DE BARRO'',
    ''12 PONCHERA'',
    ''13 MECEDORA DE MIMBRE'',
    ''14 FOG'' @ [CHR 0xD3] @ ''N DE LE'' @ [CHR 0xD1] @ ''A'',
    ''15 TOTUMA Y CUCHARA DE PALO'',
    ''16 MANTEL DE HULE'',
    ''17 ESTACI'' @ [CHR 0xD3] @ ''N DEL FERROCARRIL'',
    ''18 TRANV'' @ [CHR 0xCD] @ ''A DE BARRANQUILLA'',
    ''19 EL VAPOR DAVID ARANGO'',
    ''20 ROBLE MORADO EN FLOR'',
    ''21 MANGLARES DE LA CI'' @ [CHR 0xC9] @ ''NAGA'',
    ''22 BOSQUE SECO TROPICAL'',
    ''23 BOCAS DE CENIZA'',
    ''24 CALLES DE BARRIO ABAJO'',
    ''25 LA MARIMONDA'',
    ''26 LA PALENQUERA'',
    ''27 VENDEDOR DE AGUACATES'',
    ''28 LA NOVIA DE BARRANQUILLA'',
    ''29 ALEJANDRO OBREG'' @ [CHR 0xD3] @ ''N'',
    ''30 ENRIQUE GRAU'',
    ''31 PESCADOR DE ATARRAYA'',
    ''32 AZAFATE'',
    ''33 AJIACO SANTAFERE'' @ [CHR 0xD1] @ ''O'',
    ''34 TRANV'' @ [CHR 0xCD] @ ''A DE BOGOT'' @ [CHR 0xC1],
    ''35 OLLETA Y MOLINILLO'',
    ''36 TAMAL SANTAFERE'' @ [CHR 0xD1] @ ''O'']"

definition NUM_BOARDS :: nat where
  "NUM_BOARDS = 15"

definition BOARD_SIZE :: nat where
  "BOARD_SIZE = 16"

definition FIRST_24_FREQUENCY :: nat where
  "FIRST_24_FREQUENCY = 7"

definition LAST_12_FREQUENCY :: nat where
  "LAST_12_FREQUENCY = 6"

section \<open>\<^verbatim>\<open>create_master_pool\<close>\<close>

text \<open>
  Two \<^verbatim>\<open>for\<close> loops, each extending the list by \<^verbatim>\<open>[item] * frequency\<close>:
  first over \<^verbatim>\<open>ITEMS[:24]\<close>, then over \<^verbatim>\<open>ITEMS[24:]\<close>.
\<close>

definition create_master_pool :: "string list" where
  "create_master_pool =
     (let master_pool = [];
          master_pool = fold (\<lambda>item pool. pool @ replicate FIRST_24_FREQUENCY item)
                             (take 24 ITEMS) master_pool;
          master_pool = fold (\<lambda>item pool. pool @ replicate LAST_12_FREQUENCY item)
                             (drop 24 ITEMS) master_pool
      in master_pool)"

section \<open>\<^verbatim>\<open>collections.Counter\<close>\<close>

text \<open>
  A \<^verbatim>\<open>Counter\<close> is a dictionary from items to integer counts that iterates in insertion
  order, which \<^verbatim>\<open>elements()\<close> exposes; it is an association list here. Reading a missing
  key gives 0 and deleting a missing key is not an error (both as in \<^verbatim>\<open>Counter\<close>);
  storing to a missing key appends it.
\<close>

type_synonym 'a counter = "('a \<times> int) list"

fun counter_get :: "'a counter \<Rightarrow> 'a \<Rightarrow> int" where
  "counter_get [] x = 0"
| "counter_get ((k, c) # kvs) x = (if k = x then c else counter_get kvs x)"

fun counter_set :: "'a counter \<Rightarrow> 'a \<Rightarrow> int \<Rightarrow> 'a counter" where
  "counter_set [] x v = [(x, v)]"
| "counter_set ((k, c) # kvs) x v =
     (if k = x then (k, v) # kvs else (k, c) # counter_set kvs x v)"

fun counter_del :: "'a counter \<Rightarrow> 'a \<Rightarrow> 'a counter" where
  "counter_del [] x = []"
| "counter_del ((k, c) # kvs) x = (if k = x then kvs else (k, c) # counter_del kvs x)"

text \<open>\<^verbatim>\<open>Counter(iterable)\<close>: one increment per element, in order.\<close>

definition Counter :: "'a list \<Rightarrow> 'a counter" where
  "Counter xs = fold (\<lambda>x m. counter_set m x (counter_get m x + 1)) xs []"

text \<open>\<^verbatim>\<open>elements()\<close>: every key repeated count times, keys with a count below 1 skipped.\<close>

definition elements :: "'a counter \<Rightarrow> 'a list" where
  "elements m = concat (map (\<lambda>(k, c). replicate (nat c) k) m)"

section \<open>The random source\<close>

text \<open>
  The exceptions of the program: \<^verbatim>\<open>RuntimeError\<close> (line 102, with \<^verbatim>\<open>max_attempts\<close> in its
  message), \<^verbatim>\<open>AssertionError\<close> (line 255) and those that can reach an attempt from outside.
  \<^verbatim>\<open>KeyboardInterrupt\<close> and \<^verbatim>\<open>SystemExit\<close> derive from \<^verbatim>\<open>BaseException\<close> only, so
  \<^verbatim>\<open>except Exception\<close> (line 98) does not catch them; the others are instances of
  \<^verbatim>\<open>Exception\<close>.
\<close>

datatype py_exception =
  RuntimeError int | AssertionError | TypeError | MemoryError | KeyboardInterrupt | SystemExit

fun is_Exception :: "py_exception \<Rightarrow> bool" where
  "is_Exception KeyboardInterrupt = False"
| "is_Exception SystemExit = False"
| "is_Exception e = True"

text \<open>
  \<^verbatim>\<open>random.shuffle\<close> works on the process-wide generator. The generator's state is
  threaded explicitly: a shuffle takes the state and the list and gives the new state with
  either the reordered list or an exception raised while it runs, inside the \<^verbatim>\<open>try\<close> block.
\<close>

type_synonym ('g, 'a) shuffle = "'g \<Rightarrow> 'a list \<Rightarrow> (py_exception + 'a list) \<times> 'g"

section \<open>\<^verbatim>\<open>generate_boards\<close>\<close>

text \<open>
  The inner loop \<^verbatim>\<open>for item in available_items\<close> over the state
  \<^verbatim>\<open>(board, board_items, available)\<close>.
\<close>

fun fill_board :: "'a list \<Rightarrow> 'a list \<times> 'a set \<times> 'a counter \<Rightarrow> 'a list \<times> 'a set \<times> 'a counter" where
  "fill_board [] s = s"
| "fill_board (item # rest) (board, board_items, available) =
     (if item \<notin> board_items \<and> length board < BOARD_SIZE then
        (let board' = board @ [item];
             board_items' = insert item board_items;
             available' = counter_set available item (counter_get available item - 1);
             available'' = (if counter_get available' item = 0
                            then counter_del available' item else available')
         in fill_board rest (board', board_items', available''))
      else fill_board rest (board, board_items, available))"

text \<open>
  The loop \<^verbatim>\<open>for board_num in range(NUM_BOARDS)\<close>, with the number of iterations left
  as first argument. It ends with the boards built so far: after the last iteration,
  or at the \<^verbatim>\<open>break\<close> when a board was not filled; or it ends with the exception.
\<close>

fun build_boards :: "('g, 'a) shuffle \<Rightarrow> nat \<Rightarrow> 'g \<Rightarrow> 'a counter \<Rightarrow> 'a list list
    \<Rightarrow> (py_exception + 'a list list) \<times> 'g" where
  "build_boards shuffle 0 g available boards = (Inr boards, g)"
| "build_boards shuffle (Suc n) g available boards =
     (case shuffle g (elements available) of
        (Inl e, g') \<Rightarrow> (Inl e, g')
      | (Inr available_items, g') \<Rightarrow>
          (case fill_board available_items ([], {}, available) of
             (board, board_items, available') \<Rightarrow>
               if length board \<noteq> BOARD_SIZE then (Inr boards, g')
               else build_boards shuffle n g' available' (boards @ [board])))"

text \<open>
  The loop \<^verbatim>\<open>for attempt in range(max_attempts)\<close>, with the number of attempts left:
  \<^verbatim>\<open>Some (Inr boards)\<close> is the \<^verbatim>\<open>return\<close>, \<^verbatim>\<open>Some (Inl e)\<close> is an exception that leaves
  the function, \<^verbatim>\<open>None\<close> is falling out of the loop.

  The items are of any type; \<open>hashable\<close> says which of its values Python can hash (every
  \<^verbatim>\<open>str\<close> can). \<^verbatim>\<open>Counter(master_pool)\<close> on line 64 stands before the \<^verbatim>\<open>try\<close>: the
  \<^verbatim>\<open>TypeError\<close> it raises on a value that cannot be hashed is not caught. In the
  \<^verbatim>\<open>try\<close> block the items come from the counter, so hashing them raises nothing there.
  An exception raised in the \<^verbatim>\<open>try\<close> block is caught by \<^verbatim>\<open>except Exception\<close> and the loop
  continues, unless it is not an instance of \<^verbatim>\<open>Exception\<close>.
\<close>

fun attempts :: "('a \<Rightarrow> bool) \<Rightarrow> ('g, 'a) shuffle \<Rightarrow> 'a list \<Rightarrow> nat \<Rightarrow> 'g
    \<Rightarrow> (py_exception + 'a list list) option \<times> 'g" where
  "attempts hashable shuffle master_pool 0 g = (None, g)"
| "attempts hashable shuffle master_pool (Suc n) g =
     (if \<not> list_all hashable master_pool then (Some (Inl TypeError), g)
      else
        (case build_boards shuffle NUM_BOARDS g (Counter master_pool) [] of
           (Inr boards, g') \<Rightarrow>
             if length boards = NUM_BOARDS then (Some (Inr boards), g')
             else attempts hashable shuffle master_pool n g'
         | (Inl e, g') \<Rightarrow>
             if is_Exception e then attempts hashable shuffle master_pool n g'
             else (Some (Inl e), g')))"

text \<open>
  \<^verbatim>\<open>range(max_attempts)\<close> is empty for a negative argument; the error message carries
  \<^verbatim>\<open>max_attempts\<close> itself.
\<close>

definition generate_boards :: "('a \<Rightarrow> bool) \<Rightarrow> ('g, 'a) shuffle \<Rightarrow> 'g \<Rightarrow> 'a list \<Rightarrow> int
    \<Rightarrow> (py_exception + 'a list list) \<times> 'g" where
  "generate_boards hashable shuffle g master_pool max_attempts =
     (case attempts hashable shuffle master_pool (nat max_attempts) g of
        (Some result, g') \<Rightarrow> (result, g')
      | (None, g') \<Rightarrow> (Inl (RuntimeError max_attempts), g'))"

section \<open>\<^verbatim>\<open>main\<close>\<close>

text \<open>
  \<^verbatim>\<open>create_master_pool\<close> with the catalogue and the two frequencies as arguments, to speak
  of the program under another configuration; at the constants of the module it is
  \<^const>\<open>create_master_pool\<close>.
\<close>

definition create_master_pool_of :: "'a list \<Rightarrow> nat \<Rightarrow> nat \<Rightarrow> 'a list" where
  "create_master_pool_of items first_24_frequency last_12_frequency =
     (let master_pool = [];
          master_pool = fold (\<lambda>item pool. pool @ replicate first_24_frequency item)
                             (take 24 items) master_pool;
          master_pool = fold (\<lambda>item pool. pool @ replicate last_12_frequency item)
                             (drop 24 items) master_pool
      in master_pool)"

text \<open>
  Lines 252 to 259 of \<^verbatim>\<open>main\<close>: the pool is built, its size is asserted to be 240, and only
  then \<^verbatim>\<open>generate_boards\<close> is called, with 1000 attempts; the items are strings, which can
  all be hashed. The value is the boards that \<^verbatim>\<open>main\<close> goes on to print, export and test, or
  the exception that ends it before; printing, export and \<^verbatim>\<open>run_tests\<close> are not part of
  the model. Assertions are taken as enabled, as they are unless Python runs with \<^verbatim>\<open>-O\<close>.
\<close>

definition main_of :: "string list \<Rightarrow> nat \<Rightarrow> nat \<Rightarrow> ('g, string) shuffle \<Rightarrow> 'g
    \<Rightarrow> (py_exception + string list list) \<times> 'g" where
  "main_of items first_24_frequency last_12_frequency shuffle g =
     (let master_pool = create_master_pool_of items first_24_frequency last_12_frequency
      in if length master_pool \<noteq> 240 then (Inl AssertionError, g)
         else generate_boards (\<lambda>item. True) shuffle g master_pool 1000)"

definition main :: "('g, string) shuffle \<Rightarrow> 'g \<Rightarrow> (py_exception + string list list) \<times> 'g" where
  "main = main_of ITEMS FIRST_24_FREQUENCY LAST_12_FREQUENCY"

section \<open>A replayable random source\<close>

text \<open>
  A tape of outcomes drawn in advance: \<^verbatim>\<open>Inr r\<close> cuts the list at position \<open>r\<close> (the
  tail first, then the head), \<^verbatim>\<open>Inl e\<close> raises \<open>e\<close>; an empty tape leaves the list as it is.
\<close>

fun tape_shuffle :: "((py_exception + nat) list, 'a) shuffle" where
  "tape_shuffle [] xs = (Inr xs, [])"
| "tape_shuffle (Inr r # tape) xs = (Inr (drop r xs @ take r xs), tape)"
| "tape_shuffle (Inl e # tape) xs = (Inl e, tape)"


section \<open>Notions used in the statements and proofs\<close>

text \<open>
  A counter as Python keeps it: every key once, and (as \<^verbatim>\<open>generate_boards\<close> deletes a key
  whose count reaches 0) every count positive.
\<close>

definition wf_counter :: "'a counter \<Rightarrow> bool" where
  "wf_counter m = (distinct (map fst m) \<and> list_all (\<lambda>c. 0 < c) (map snd m))"

text \<open>
  Lines 82 to 85 on their own: \<^verbatim>\<open>available[item] -= 1\<close>, then the key is deleted if its
  count is 0.
\<close>

definition counter_dec :: "'a counter \<Rightarrow> 'a \<Rightarrow> 'a counter" where
  "counter_dec available item =
     (let available' = counter_set available item (counter_get available item - 1)
      in if counter_get available' item = 0 then counter_del available' item else available')"

text \<open>
  The acceptance rule and the left-to-right scan in the words of the specification:
  a token is accepted if the board is not yet full and does not hold the token's value.
\<close>

definition spec_accepts :: "'a list \<Rightarrow> 'a \<Rightarrow> bool" where
  "spec_accepts board token \<longleftrightarrow> length board < BOARD_SIZE \<and> token \<notin> set board"

fun spec_scan :: "'a list \<Rightarrow> 'a list \<Rightarrow> 'a list" where
  "spec_scan [] board = board"
| "spec_scan (token # tokens) board =
     (if spec_accepts board token then spec_scan tokens (board @ [token])
      else spec_scan tokens board)"

text \<open>
  What \<^verbatim>\<open>random.shuffle\<close> guarantees: the list it leaves is a reordering of the list it got.
\<close>

definition shuffle_perm :: "('g, 'a) shuffle \<Rightarrow> bool" where
  "shuffle_perm shuffle \<longleftrightarrow> (\<forall>g xs ys g'. shuffle g xs = (Inr ys, g') \<longrightarrow> mset ys = mset xs)"

text \<open>
  The \<^verbatim>\<open>try\<close> block of one iteration of the outer loop, up to its test (lines 69 to 92): the
  boards built from a fresh \<^verbatim>\<open>Counter(master_pool)\<close>, or the exception raised there. And the
  whole iteration up to that test, with line 64 before the \<^verbatim>\<open>try\<close>.
\<close>

definition try_block :: "('g, 'a) shuffle \<Rightarrow> 'a list \<Rightarrow> 'g \<Rightarrow> (py_exception + 'a list list) \<times> 'g" where
  "try_block shuffle master_pool g = build_boards shuffle NUM_BOARDS g (Counter master_pool) []"

definition attempt :: "('a \<Rightarrow> bool) \<Rightarrow> ('g, 'a) shuffle \<Rightarrow> 'a list \<Rightarrow> 'g
    \<Rightarrow> (py_exception + 'a list list) \<times> 'g" where
  "attempt hashable shuffle master_pool g =
     (if \<not> list_all hashable master_pool then (Inl TypeError, g)
      else try_block shuffle master_pool g)"

text \<open>
  An iteration is passed over, the loop going on, when it built fewer boards than
  \<^const>\<open>NUM_BOARDS\<close> or an instance of \<^verbatim>\<open>Exception\<close> was raised in its \<^verbatim>\<open>try\<close> block.
  \<open>state_after k\<close> is the state of the random source after \<open>k\<close> iterations.
\<close>

definition attempt_passed_over :: "('a \<Rightarrow> bool) \<Rightarrow> ('g, 'a) shuffle \<Rightarrow> 'a list \<Rightarrow> 'g \<Rightarrow> bool" where
  "attempt_passed_over hashable shuffle master_pool g \<longleftrightarrow>
     list_all hashable master_pool \<and>
     (case fst (try_block shuffle master_pool g) of
        Inr boards \<Rightarrow> length boards \<noteq> NUM_BOARDS
      | Inl e \<Rightarrow> is_Exception e)"

definition state_after :: "('a \<Rightarrow> bool) \<Rightarrow> ('g, 'a) shuffle \<Rightarrow> 'a list \<Rightarrow> nat \<Rightarrow> 'g \<Rightarrow> 'g" where
  "state_after hashable shuffle master_pool k g
     = ((\<lambda>g. snd (attempt hashable shuffle master_pool g)) ^^ k) g"


definition valid_board :: "'a list \<Rightarrow> bool" where
  "valid_board board \<longleftrightarrow> length board = BOARD_SIZE \<and> distinct board"

text \<open>
  A valid Board Set in the words of the specification (section 3): the prescribed number of
  boards, each of the prescribed size without a repeated item, every token of the master pool
  used exactly once, and no two boards with the same set of items.
\<close>

definition valid_board_set :: "'a list \<Rightarrow> 'a list list \<Rightarrow> bool" where
  "valid_board_set master_pool boards \<longleftrightarrow>
     length boards = NUM_BOARDS \<and>
     list_all valid_board boards \<and>
     mset (concat boards) = mset master_pool \<and>
     distinct (map set boards)"

section \<open>A run on the reference pool\<close>

text \<open>
  When the cut falls on the boundary before the \<open>j\<close>-th key of the counter and at least
  \<^const>\<open>BOARD_SIZE\<close> keys follow, the scan takes exactly the next \<^const>\<open>BOARD_SIZE\<close> keys. The
  functions below compute the board, the counter left and the cut position for such a window
  directly on the counter.
\<close>

definition dec_entries :: "'a counter \<Rightarrow> 'a counter" where
  "dec_entries kvs = map (\<lambda>(k, c). (k, c - 1)) (filter (\<lambda>(k, c). c \<noteq> 1) kvs)"

definition window_step :: "nat \<Rightarrow> 'a counter \<Rightarrow> 'a list \<times> 'a counter" where
  "window_step j av =
     (map fst (take BOARD_SIZE (drop j av)),
      take j av @ dec_entries (take BOARD_SIZE (drop j av)) @ drop (j + BOARD_SIZE) av)"

fun window_tape :: "nat list \<Rightarrow> 'a counter \<Rightarrow> (py_exception + nat) list" where
  "window_tape [] av = []"
| "window_tape (j # js) av =
     Inr (length (elements (take j av))) # window_tape js (snd (window_step j av))"

fun window_boards :: "nat list \<Rightarrow> 'a counter \<Rightarrow> 'a list list" where
  "window_boards [] av = []"
| "window_boards (j # js) av = fst (window_step j av) # window_boards js (snd (window_step j av))"

fun windows_fit :: "nat list \<Rightarrow> 'a counter \<Rightarrow> bool" where
  "windows_fit [] av = True"
| "windows_fit (j # js) av =
     (j + BOARD_SIZE \<le> length av \<and> windows_fit js (snd (window_step j av)))"

text \<open>
  The counter of the reference pool, fifteen windows that use it up, the tape that
  produces them, and the boards they give (as indices into \<^const>\<open>ITEMS\<close>).
\<close>

definition reference_counter :: "string counter" where
  "reference_counter =
     zip ITEMS (replicate 24 (int FIRST_24_FREQUENCY) @ replicate 12 (int LAST_12_FREQUENCY))"

definition reference_windows :: "nat list" where
  "reference_windows = [0, 11, 12, 20, 20, 20, 20, 10, 12, 0, 0, 0, 0, 0, 0]"

definition reference_tape :: "(py_exception + nat) list" where
  "reference_tape = map Inr [0, 66, 71, 107, 107, 107, 107, 60, 69, 0, 0, 0, 0, 0, 0]"

definition reference_boards :: "string list list" where
  "reference_boards = map (map (\<lambda>i. ITEMS ! i))
     [[0, 1, 2, 3, 4, 5, 6, 7, 8, 9, 10, 11, 12, 13, 14, 15],
      [11, 12, 13, 14, 15, 16, 17, 18, 19, 20, 21, 22, 23, 24, 25, 26],
      [12, 13, 14, 15, 16, 17, 18, 19, 20, 21, 22, 23, 24, 25, 26, 27],
      [20, 21, 22, 23, 24, 25, 26, 27, 28, 29, 30, 31, 32, 33, 34, 35],
      [20, 21, 22, 23, 24, 25, 26, 27, 28, 29, 30, 31, 32, 33, 34, 35],
      [20, 21, 22, 23, 24, 25, 26, 27, 28, 29, 30, 31, 32, 33, 34, 35],
      [20, 21, 22, 23, 24, 25, 26, 27, 28, 29, 30, 31, 32, 33, 34, 35],
      [10, 11, 12, 13, 14, 15, 16, 17, 18, 19, 20, 21, 22, 23, 27, 28],
      [12, 13, 14, 15, 16, 17, 18, 19, 28, 29, 30, 31, 32, 33, 34, 35],
      [0, 1, 2, 3, 4, 5, 6, 7, 8, 9, 10, 11, 12, 13, 14, 15],
      [0, 1, 2, 3, 4, 5, 6, 7, 8, 9, 10, 11, 12, 13, 14, 15],
      [0, 1, 2, 3, 4, 5, 6, 7, 8, 9, 10, 11, 16, 17, 18, 19],
      [0, 1, 2, 3, 4, 5, 6, 7, 8, 9, 10, 11, 16, 17, 18, 19],
      [0, 1, 2, 3, 4, 5, 6, 7, 8, 9, 10, 16, 17, 18, 19, 29],
      [0, 1, 2, 3, 4, 5, 6, 7, 8, 9, 30, 31, 32, 33, 34, 35]]"

section \<open>Lemmas\<close>

lemma counter_get_set: "counter_get (counter_set m x v) y = (if y = x then v else counter_get m y)"
  by (induction m) auto

lemma keys_counter_set: "fst ` set (counter_set m x v) = insert x (fst ` set m)"
  by (induction m) (force split: if_splits)+

lemma distinct_counter_set: "distinct (map fst m) \<Longrightarrow> distinct (map fst (counter_set m x v))"
  by (induction m) (auto simp: keys_counter_set)

lemma counter_get_absent: "x \<notin> set (map fst m) \<Longrightarrow> counter_get m x = 0"
  by (induction m) auto

lemma keys_counter_del: "fst ` set (counter_del m x) \<subseteq> fst ` set m"
  by (induction m) (force split: if_splits)+

lemma distinct_counter_del: "distinct (map fst m) \<Longrightarrow> distinct (map fst (counter_del m x))"
proof (induction m)
  case Nil
  then show ?case by simp
next
  case (Cons kv m)
  obtain k c where kv: "kv = (k, c)" by (cases kv)
  from Cons keys_counter_del [of m x] show ?case
    by (auto simp: kv image_iff subset_iff)
qed

lemma counter_get_del:
  "distinct (map fst m) \<Longrightarrow> counter_get (counter_del m x) y = (if y = x then 0 else counter_get m y)"
  by (induction m) (auto simp: counter_get_absent)

lemma values_counter_set:
  "list_all (\<lambda>c. 0 < c) (map snd m) \<Longrightarrow> 0 < v \<Longrightarrow> list_all (\<lambda>c. 0 < c) (map snd (counter_set m x v))"
  by (induction m) auto

lemma counter_del_set:
  "distinct (map fst m) \<Longrightarrow> counter_del (counter_set m x v) x = counter_del m x"
  by (induction m) auto

lemma values_counter_del:
  "list_all (\<lambda>c. 0 < c) (map snd m) \<Longrightarrow> list_all (\<lambda>c. 0 < c) (map snd (counter_del m x))"
  by (induction m) auto

lemma counter_get_nonneg: "list_all (\<lambda>c. 0 < c) (map snd m) \<Longrightarrow> 0 \<le> counter_get m x"
  by (induction m) auto

lemma wf_counter_dec:
  assumes "wf_counter m" and "1 \<le> counter_get m x"
  shows "wf_counter (counter_dec m x)"
proof (cases "counter_get m x = 1")
  case True
  then have "counter_dec m x = counter_del m x"
    using assms by (simp add: counter_dec_def counter_get_set counter_del_set wf_counter_def)
  then show ?thesis
    using assms by (simp add: wf_counter_def distinct_counter_del values_counter_del)
next
  case False
  then have "counter_dec m x = counter_set m x (counter_get m x - 1)"
    by (simp add: counter_dec_def counter_get_set)
  then show ?thesis
    using assms False by (simp add: wf_counter_def distinct_counter_set values_counter_set)
qed

lemma counter_get_dec:
  assumes "distinct (map fst m)"
  shows "counter_get (counter_dec m x) y = (if y = x then counter_get m x - 1 else counter_get m y)"
  using assms
  by (auto simp: counter_dec_def Let_def counter_get_set counter_get_del distinct_counter_set)

lemma set_elements: "set (elements m) = {k. \<exists>c. (k, c) \<in> set m \<and> 0 < c}"
  by (induction m) (auto simp: elements_def)

lemma count_elements:
  "distinct (map fst m) \<Longrightarrow> count (mset (elements m)) x = nat (counter_get m x)"
proof (induction m)
  case Nil
  then show ?case by (simp add: elements_def)
next
  case (Cons kv m)
  obtain k c where kv: "kv = (k, c)" by (cases kv)
  have el: "elements ((k, c) # m) = replicate (nat c) k @ elements m"
    by (simp add: elements_def)
  show ?case
  proof (cases "k = x")
    case True
    with Cons.prems have "x \<notin> set (elements m)"
      by (force simp: set_elements kv)
    then have "count (mset (elements m)) x = 0"
      by (simp add: count_eq_zero_iff)
    with True el show ?thesis by (simp add: kv)
  next
    case False
    with Cons show ?thesis by (simp add: el kv)
  qed
qed

lemma fold_counter_get:
  "counter_get (fold (\<lambda>x m. counter_set m x (counter_get m x + 1)) xs m) y
     = counter_get m y + int (count_list xs y)"
  by (induction xs arbitrary: m) (auto simp: counter_get_set)

lemma fold_counter_wf:
  "wf_counter m \<Longrightarrow> wf_counter (fold (\<lambda>x m. counter_set m x (counter_get m x + 1)) xs m)"
proof (induction xs arbitrary: m)
  case Nil
  then show ?case by simp
next
  case (Cons x xs)
  from Cons.prems have "0 \<le> counter_get m x"
    by (simp add: wf_counter_def counter_get_nonneg)
  with Cons.prems have "wf_counter (counter_set m x (counter_get m x + 1))"
    by (simp add: wf_counter_def distinct_counter_set values_counter_set)
  then show ?case using Cons.IH by simp
qed

lemma wf_Counter: "wf_counter (Counter xs)"
  using fold_counter_wf [of "[]" xs] by (simp add: Counter_def wf_counter_def)

lemma counter_get_Counter: "counter_get (Counter xs) y = int (count_list xs y)"
  by (simp add: Counter_def fold_counter_get)

lemma mset_elements_Counter: "mset (elements (Counter xs)) = mset xs"
proof (rule multiset_eqI)
  fix x
  have "distinct (map fst (Counter xs))"
    using wf_Counter [of xs] by (simp add: wf_counter_def)
  then have "count (mset (elements (Counter xs))) x = nat (counter_get (Counter xs) x)"
    by (rule count_elements)
  also have "\<dots> = count_list xs x"
    by (simp add: counter_get_Counter)
  finally show "count (mset (elements (Counter xs))) x = count (mset xs) x"
    by (simp add: count_mset)
qed

lemma fill_board_Cons:
  "fill_board (item # rest) (board, board_items, available) =
     (if item \<notin> board_items \<and> length board < BOARD_SIZE
      then fill_board rest (board @ [item], insert item board_items, counter_dec available item)
      else fill_board rest (board, board_items, available))"
  by (simp add: counter_dec_def Let_def)

lemma spec_scan_prefix: "\<exists>ys. spec_scan xs b = b @ ys"
proof (induction xs arbitrary: b)
  case Nil
  then show ?case by simp
next
  case (Cons x xs)
  from Cons [of "b @ [x]"] Cons [of b] show ?case
    by (cases "spec_accepts b x") auto
qed

lemma spec_scan_distinct: "distinct b \<Longrightarrow> distinct (spec_scan xs b)"
  by (induction xs arbitrary: b) (auto simp: spec_accepts_def)

lemma spec_scan_set: "set (spec_scan xs b) \<subseteq> set b \<union> set xs"
proof (induction xs arbitrary: b)
  case Nil
  then show ?case by simp
next
  case (Cons x xs)
  from Cons [of "b @ [x]"] Cons [of b] show ?case
    by (cases "spec_accepts b x") auto
qed

lemma fill_board_scan:
  "fill_board xs (b, set b, av) =
     (spec_scan xs b, set (spec_scan xs b),
      fold (\<lambda>item av. counter_dec av item) (drop (length b) (spec_scan xs b)) av)"
proof (induction xs arbitrary: b av)
  case Nil
  then show ?case by simp
next
  case (Cons x xs)
  show ?case
  proof (cases "spec_accepts b x")
    case True
    obtain ys where ys: "spec_scan xs (b @ [x]) = (b @ [x]) @ ys"
      using spec_scan_prefix by blast
    have "fill_board (x # xs) (b, set b, av) = fill_board xs (b @ [x], set (b @ [x]), counter_dec av x)"
      using True by (simp only: fill_board_Cons) (simp add: spec_accepts_def)
    also have "\<dots> = (spec_scan xs (b @ [x]), set (spec_scan xs (b @ [x])),
        fold (\<lambda>item av. counter_dec av item) (drop (length (b @ [x])) (spec_scan xs (b @ [x]))) (counter_dec av x))"
      by (rule Cons.IH)
    finally show ?thesis
      using True by (simp add: ys)
  next
    case False
    have "fill_board (x # xs) (b, set b, av) = fill_board xs (b, set b, av)"
      using False by (simp only: fill_board_Cons) (auto simp: spec_accepts_def)
    then show ?thesis
      using False Cons.IH [of b av] by simp
  qed
qed

lemma fold_counter_dec:
  assumes "wf_counter av" and "distinct ys" and "\<forall>y \<in> set ys. 1 \<le> counter_get av y"
  shows "wf_counter (fold (\<lambda>item av. counter_dec av item) ys av) \<and>
         (\<forall>x. counter_get (fold (\<lambda>item av. counter_dec av item) ys av) x
               = counter_get av x - (if x \<in> set ys then 1 else 0))"
  using assms
proof (induction ys arbitrary: av)
  case Nil
  then show ?case by simp
next
  case (Cons y ys)
  have wf: "wf_counter (counter_dec av y)"
    using Cons.prems by (simp add: wf_counter_dec)
  have get: "\<And>x. counter_get (counter_dec av y) x = (if x = y then counter_get av y - 1 else counter_get av x)"
    using Cons.prems by (simp add: counter_get_dec wf_counter_def)
  have avail: "\<forall>z \<in> set ys. 1 \<le> counter_get (counter_dec av y) z"
    using Cons.prems by (auto simp: get)
  from Cons.IH [OF wf _ avail] Cons.prems show ?case
    by (auto simp: get)
qed

lemma mset_elements_fill:
  assumes wf: "wf_counter av" and perm: "mset xs = mset (elements av)"
    and fill: "fill_board xs ([], {}, av) = (board, board_items, av')"
  shows "wf_counter av' \<and> mset (elements av') + mset board = mset (elements av)"
proof -
  have board: "board = spec_scan xs []"
    and av': "av' = fold (\<lambda>item av. counter_dec av item) (spec_scan xs []) av"
    using fill fill_board_scan [of xs "[]" av] by simp_all
  have dist: "distinct board"
    by (simp add: board spec_scan_distinct)
  have dk: "distinct (map fst av)"
    using wf by (simp add: wf_counter_def)
  have "set board \<subseteq> set xs"
    using spec_scan_set [of xs "[]"] by (simp add: board)
  also have "set xs = set (elements av)"
    using perm by (metis set_mset_mset)
  finally have avail: "\<forall>y \<in> set board. 1 \<le> counter_get av y"
  proof -
    assume sub: "set board \<subseteq> set (elements av)"
    show ?thesis
    proof
      fix y assume "y \<in> set board"
      with sub have "0 < count (mset (elements av)) y"
        by (auto simp: count_mset_gt_0)
      then show "1 \<le> counter_get av y"
        by (simp add: count_elements [OF dk])
    qed
  qed
  from fold_counter_dec [OF wf dist avail]
  have wf': "wf_counter av'"
    and get: "\<And>x. counter_get av' x = counter_get av x - (if x \<in> set board then 1 else 0)"
    by (simp_all add: av' board)
  have dk': "distinct (map fst av')"
    using wf' by (simp add: wf_counter_def)
  have "mset (elements av') + mset board = mset (elements av)"
  proof (rule multiset_eqI)
    fix x
    have "count (mset board) x = (if x \<in> set board then 1 else 0)"
      using dist by (simp add: distinct_count_atmost_1)
    then show "count (mset (elements av') + mset board) x = count (mset (elements av)) x"
      using avail by (auto simp: count_elements [OF dk] count_elements [OF dk'] get)
  qed
  with wf' show ?thesis by simp
qed

lemma fill_board_valid:
  assumes "fill_board xs ([], {}, av) = (board, board_items, av')" and "length board = BOARD_SIZE"
  shows "valid_board board"
  using assms fill_board_scan [of xs "[]" av] spec_scan_distinct [of "[]" xs]
  by (simp add: valid_board_def)

lemma build_boards_valid:
  assumes "build_boards shuffle n g av boards = (Inr bs, g')" and "list_all valid_board boards"
  shows "list_all valid_board bs \<and> length bs \<le> length boards + n"
  using assms
proof (induction n arbitrary: g av boards)
  case 0
  then show ?case by simp
next
  case (Suc n)
  obtain r g1 where sh: "shuffle g (elements av) = (r, g1)"
    by (cases "shuffle g (elements av)")
  show ?case
  proof (cases r)
    case (Inl e)
    with Suc.prems sh show ?thesis by simp
  next
    case (Inr xs)
    obtain board board_items av' where fill: "fill_board xs ([], {}, av) = (board, board_items, av')"
      by (cases "fill_board xs ([], {}, av)")
    show ?thesis
    proof (cases "length board = BOARD_SIZE")
      case True
      then have "list_all valid_board (boards @ [board])"
        using Suc.prems(2) fill_board_valid [OF fill] by simp
      moreover have "build_boards shuffle n g1 av' (boards @ [board]) = (Inr bs, g')"
        using Suc.prems(1) sh Inr fill True by simp
      ultimately show ?thesis
        using Suc.IH [of g1 av' "boards @ [board]"] by simp
    next
      case False
      with Suc.prems sh Inr fill show ?thesis by simp
    qed
  qed
qed

lemma build_boards_mset:
  assumes "shuffle_perm shuffle" and "build_boards shuffle n g av boards = (Inr bs, g')"
    and "wf_counter av"
  shows "\<exists>av'. wf_counter av' \<and>
           mset (elements av') + mset (concat bs) = mset (elements av) + mset (concat boards)"
  using assms(2,3)
proof (induction n arbitrary: g av boards)
  case 0
  then show ?case by auto
next
  case (Suc n)
  obtain r g1 where sh: "shuffle g (elements av) = (r, g1)"
    by (cases "shuffle g (elements av)")
  show ?case
  proof (cases r)
    case (Inl e)
    with Suc.prems sh show ?thesis by simp
  next
    case (Inr xs)
    have perm: "mset xs = mset (elements av)"
      using assms(1) sh Inr unfolding shuffle_perm_def by blast
    obtain board board_items av' where fill: "fill_board xs ([], {}, av) = (board, board_items, av')"
      by (cases "fill_board xs ([], {}, av)")
    from mset_elements_fill [OF Suc.prems(2) perm fill]
    have wf': "wf_counter av'" and eq: "mset (elements av') + mset board = mset (elements av)"
      by simp_all
    show ?thesis
    proof (cases "length board = BOARD_SIZE")
      case True
      have "build_boards shuffle n g1 av' (boards @ [board]) = (Inr bs, g')"
        using Suc.prems(1) sh Inr fill True by simp
      from Suc.IH [OF this wf'] obtain av'' where "wf_counter av''"
        and "mset (elements av'') + mset (concat bs)
              = mset (elements av') + mset (concat (boards @ [board]))"
        by blast
      then show ?thesis
        using eq by (auto simp: ac_simps)
    next
      case False
      with Suc.prems sh Inr fill have "bs = boards" by simp
      with Suc.prems(2) show ?thesis by auto
    qed
  qed
qed

lemma attempts_Inr:
  assumes "attempts hashable shuffle master_pool n g = (Some (Inr boards), g')"
  shows "\<exists>g0. try_block shuffle master_pool g0 = (Inr boards, g') \<and> length boards = NUM_BOARDS"
  using assms
proof (induction n arbitrary: g)
  case 0
  then show ?case by simp
next
  case (Suc n)
  from Suc.prems have h: "list_all hashable master_pool"
    by (cases "list_all hashable master_pool") simp_all
  obtain r g1 where att: "build_boards shuffle NUM_BOARDS g (Counter master_pool) [] = (r, g1)"
    by (cases "build_boards shuffle NUM_BOARDS g (Counter master_pool) []")
  show ?case
  proof (cases r)
    case (Inl e)
    with Suc.prems att h have "attempts hashable shuffle master_pool n g1 = (Some (Inr boards), g')"
      by (cases "is_Exception e") simp_all
    then show ?thesis by (rule Suc.IH)
  next
    case (Inr bs)
    show ?thesis
    proof (cases "length bs = NUM_BOARDS")
      case True
      with Suc.prems att Inr h have "bs = boards" "g1 = g'" by simp_all
      with att Inr True show ?thesis by (auto simp: try_block_def)
    next
      case False
      with Suc.prems att Inr h
      have "attempts hashable shuffle master_pool n g1 = (Some (Inr boards), g')" by simp
      then show ?thesis by (rule Suc.IH)
    qed
  qed
qed

lemma generate_boards_Inr:
  assumes "generate_boards hashable shuffle g master_pool max_attempts = (Inr boards, g')"
  shows "\<exists>g0. try_block shuffle master_pool g0 = (Inr boards, g') \<and> length boards = NUM_BOARDS"
proof -
  from assms
  have "attempts hashable shuffle master_pool (nat max_attempts) g = (Some (Inr boards), g')"
    by (auto simp: generate_boards_def split: prod.splits option.splits)
  then show ?thesis by (rule attempts_Inr)
qed

lemma try_block_valid:
  assumes "try_block shuffle master_pool g = (Inr boards, g')"
  shows "list_all valid_board boards \<and> length boards \<le> NUM_BOARDS"
  using build_boards_valid [of shuffle NUM_BOARDS g "Counter master_pool" "[]" boards g'] assms
  by (simp add: try_block_def)

lemma length_concat_valid:
  "list_all valid_board boards \<Longrightarrow> length (concat boards) = BOARD_SIZE * length boards"
  by (induction boards) (auto simp: valid_board_def)

lemma try_block_mset:
  assumes "shuffle_perm shuffle" and "try_block shuffle master_pool g = (Inr boards, g')"
  shows "mset (concat boards) \<subseteq># mset master_pool"
proof -
  from build_boards_mset [OF assms(1) assms(2) [unfolded try_block_def] wf_Counter]
  obtain av' where "mset (elements av') + mset (concat boards) = mset master_pool"
    by (auto simp: mset_elements_Counter)
  then show ?thesis
    by (metis mset_subset_eq_add_right)
qed

lemma try_block_full_mset:
  assumes "shuffle_perm shuffle" and "try_block shuffle master_pool g = (Inr boards, g')"
    and "length boards = NUM_BOARDS" and "length master_pool = NUM_BOARDS * BOARD_SIZE"
  shows "mset (concat boards) = mset master_pool"
proof -
  have sub: "mset (concat boards) \<subseteq># mset master_pool"
    using assms(1,2) by (rule try_block_mset)
  have "size (mset (concat boards)) = size (mset master_pool)"
    using try_block_valid [OF assms(2)] assms(3,4) by (simp add: length_concat_valid)
  with sub show ?thesis
    by (metis mset_subset_size nat_less_le subset_mset.less_le)
qed

lemma try_block_needs_pool:
  assumes "shuffle_perm shuffle" and "try_block shuffle master_pool g = (Inr boards, g')"
    and "length boards = NUM_BOARDS"
  shows "NUM_BOARDS * BOARD_SIZE \<le> length master_pool"
proof -
  have "size (mset (concat boards)) \<le> size (mset master_pool)"
    using try_block_mset [OF assms(1,2)] by (rule size_mset_mono)
  then show ?thesis
    using try_block_valid [OF assms(2)] assms(3) by (simp add: length_concat_valid mult.commute)
qed

lemma counter_get_append: "k \<notin> fst ` set pre \<Longrightarrow> counter_get (pre @ rest) k = counter_get rest k"
  by (induction pre) auto

lemma counter_set_append:
  "k \<notin> fst ` set pre \<Longrightarrow> counter_set (pre @ rest) k v = pre @ counter_set rest k v"
  by (induction pre) auto

lemma counter_del_append:
  "k \<notin> fst ` set pre \<Longrightarrow> counter_del (pre @ rest) k = pre @ counter_del rest k"
  by (induction pre) auto

lemma counter_dec_entry:
  "k \<notin> fst ` set pre \<Longrightarrow>
     counter_dec (pre @ (k, c) # post) k = pre @ (if c = 1 then post else (k, c - 1) # post)"
  by (simp add: counter_dec_def Let_def counter_get_append counter_set_append counter_del_append)

lemma fold_dec_entries:
  "distinct (map fst (pre @ kvs)) \<Longrightarrow>
     fold (\<lambda>item av. counter_dec av item) (map fst kvs) (pre @ kvs @ post)
       = pre @ dec_entries kvs @ post"
proof (induction kvs arbitrary: pre)
  case Nil
  then show ?case by (simp add: dec_entries_def)
next
  case (Cons kv kvs)
  obtain k c where kv: "kv = (k, c)" by (cases kv)
  have notin: "k \<notin> fst ` set pre"
    using Cons.prems by (auto simp: kv)
  let ?pre = "pre @ (if c = 1 then [] else [(k, c - 1)])"
  have step: "counter_dec (pre @ (k, c) # kvs @ post) k = ?pre @ kvs @ post"
    using counter_dec_entry [OF notin, of c "kvs @ post"] by simp
  have "distinct (map fst (?pre @ kvs))"
    using Cons.prems by (auto simp: kv)
  from Cons.IH [OF this] show ?case
    by (simp add: kv step dec_entries_def)
qed

lemma spec_scan_full: "length b = BOARD_SIZE \<Longrightarrow> spec_scan xs b = b"
  by (induction xs) (auto simp: spec_accepts_def)

lemma spec_scan_reject:
  "\<not> spec_accepts b k \<Longrightarrow> spec_scan (replicate n k @ xs) b = spec_scan xs b"
  by (induction n) auto

lemma spec_scan_block:
  assumes "0 < n" and "spec_accepts b k"
  shows "spec_scan (replicate n k @ xs) b = spec_scan xs (b @ [k])"
proof -
  obtain m where n: "n = Suc m"
    using assms(1) by (cases n) auto
  have "\<not> spec_accepts (b @ [k]) k"
    by (simp add: spec_accepts_def)
  then show ?thesis
    using assms(2) by (simp add: n spec_scan_reject)
qed

lemma elements_Cons: "elements ((k, c) # m) = replicate (nat c) k @ elements m"
  by (simp add: elements_def)

lemma elements_append: "elements (m @ m') = elements m @ elements m'"
  by (simp add: elements_def)

lemma spec_scan_elements:
  assumes "distinct (map fst rv)" and "list_all (\<lambda>c. 0 < c) (map snd rv)"
    and "set b \<inter> fst ` set rv = {}" and "length b \<le> BOARD_SIZE"
    and "BOARD_SIZE - length b \<le> length rv"
  shows "spec_scan (elements rv @ xs) b = b @ map fst (take (BOARD_SIZE - length b) rv)"
  using assms
proof (induction rv arbitrary: b)
  case Nil
  then show ?case by (simp add: elements_def spec_scan_full)
next
  case (Cons kv rv)
  obtain k c where kv: "kv = (k, c)" by (cases kv)
  show ?case
  proof (cases "length b = BOARD_SIZE")
    case True
    then show ?thesis by (simp add: spec_scan_full)
  next
    case False
    with Cons.prems have acc: "spec_accepts b k"
      by (auto simp: spec_accepts_def kv)
    have pos: "0 < nat c"
      using Cons.prems by (simp add: kv)
    have eq: "spec_scan (elements ((k, c) # rv) @ xs) b = spec_scan (elements rv @ xs) (b @ [k])"
      using spec_scan_block [OF pos acc] by (simp add: elements_Cons)
    have "spec_scan (elements rv @ xs) (b @ [k])
            = (b @ [k]) @ map fst (take (BOARD_SIZE - length (b @ [k])) rv)"
      using Cons.prems False by (intro Cons.IH) (auto simp: kv)
    moreover have "BOARD_SIZE - length b = Suc (BOARD_SIZE - length (b @ [k]))"
      using Cons.prems False by simp
    ultimately show ?thesis
      by (simp add: eq kv)
  qed
qed

lemma cut_elements:
  "drop (length (elements (take j av))) (elements av) @ take (length (elements (take j av))) (elements av)
     = elements (drop j av) @ elements (take j av)"
proof -
  have "elements av = elements (take j av) @ elements (drop j av)"
    by (simp add: elements_append [symmetric])
  then show ?thesis
    by (metis append_eq_conv_conj)
qed

lemma window_fill:
  assumes wf: "wf_counter av" and fit: "j + BOARD_SIZE \<le> length av"
  shows "fill_board (drop (length (elements (take j av))) (elements av)
                      @ take (length (elements (take j av))) (elements av)) ([], {}, av)
           = (fst (window_step j av), set (fst (window_step j av)), snd (window_step j av))"
proof -
  let ?rv = "drop j av"
  let ?kvs = "take BOARD_SIZE ?rv"
  have dk: "distinct (map fst av)" and pos: "list_all (\<lambda>c. 0 < c) (map snd av)"
    using wf by (simp_all add: wf_counter_def)
  have d1: "distinct (map fst ?rv)"
    using dk by (simp add: drop_map [symmetric])
  have p1: "list_all (\<lambda>c. 0 < c) (map snd ?rv)"
    using pos by (auto simp: list_all_iff dest: in_set_dropD)
  have scan: "spec_scan (elements ?rv @ elements (take j av)) [] = map fst ?kvs"
    using spec_scan_elements [OF d1 p1, of "[]" "elements (take j av)"] fit by simp
  have av: "av = take j av @ ?kvs @ drop (j + BOARD_SIZE) av"
    by (metis add.commute append_take_drop_id drop_drop)
  have "distinct (map fst (take j av @ ?kvs))"
  proof -
    have "take j av @ ?kvs = take (j + BOARD_SIZE) av"
      by (simp add: take_add)
    then show ?thesis
      using dk by (simp add: take_map [symmetric])
  qed
  from fold_dec_entries [OF this, of "drop (j + BOARD_SIZE) av"]
  have dec: "fold (\<lambda>item av. counter_dec av item) (map fst ?kvs) av
          = take j av @ dec_entries ?kvs @ drop (j + BOARD_SIZE) av"
    using av by simp
  show ?thesis
    using fill_board_scan [of "elements ?rv @ elements (take j av)" "[]" av]
    by (simp add: cut_elements scan dec window_step_def)
qed

lemma shuffle_perm_tape: "shuffle_perm tape_shuffle"
proof -
  have "mset ys = mset xs" if "tape_shuffle g xs = (Inr ys, g')" for g g' and xs ys :: "'a list"
  proof (cases g)
    case Nil
    with that show ?thesis by simp
  next
    case (Cons o' tape)
    show ?thesis
    proof (cases o')
      case (Inl e)
      with Cons that show ?thesis by simp
    next
      case (Inr r)
      with Cons that have "ys = drop r xs @ take r xs" by simp
      then show ?thesis
        by (metis append_take_drop_id mset_append union_commute)
    qed
  qed
  then show ?thesis
    unfolding shuffle_perm_def by blast
qed

lemma window_run:
  assumes "wf_counter av" and "windows_fit js av"
  shows "build_boards tape_shuffle (length js) (window_tape js av @ tape) av boards
           = (Inr (boards @ window_boards js av), tape)"
  using assms
proof (induction js arbitrary: av boards)
  case Nil
  then show ?case by simp
next
  case (Cons j js)
  let ?r = "length (elements (take j av))"
  let ?xs = "drop ?r (elements av) @ take ?r (elements av)"
  have fit: "j + BOARD_SIZE \<le> length av" and fits: "windows_fit js (snd (window_step j av))"
    using Cons.prems(2) by simp_all
  have fill: "fill_board ?xs ([], {}, av)
       = (fst (window_step j av), set (fst (window_step j av)), snd (window_step j av))"
    using Cons.prems(1) fit by (rule window_fill)
  have "mset ?xs = mset (elements av)"
    by (metis append_take_drop_id mset_append union_commute)
  from mset_elements_fill [OF Cons.prems(1) this fill]
  have wf': "wf_counter (snd (window_step j av))" by simp
  have len: "length (fst (window_step j av)) = BOARD_SIZE"
    using fit by (simp add: window_step_def)
  show ?case
    using Cons.IH [OF wf' fits, of "boards @ [fst (window_step j av)]"]
    by (simp add: fill len)
qed

lemma distinct_ITEMS: "distinct ITEMS"
proof -
  have "distinct (map (take 2) ITEMS)"
    by code_simp
  then show ?thesis
    by (simp add: distinct_map)
qed

lemma length_ITEMS: "length ITEMS = 36"
  by code_simp

lemma master_pool_elements: "create_master_pool = elements reference_counter"
  by code_simp

lemma reference_tape_windows: "window_tape reference_windows reference_counter = reference_tape"
  by code_simp

lemma reference_windows_fit: "windows_fit reference_windows reference_counter"
  by code_simp

lemma reference_boards_windows: "window_boards reference_windows reference_counter = reference_boards"
  by code_simp

lemma fold_count_block:
  "k \<notin> fst ` set m \<Longrightarrow>
     fold (\<lambda>x m. counter_set m x (counter_get m x + 1)) (replicate n k) (m @ [(k, c)])
       = m @ [(k, c + int n)]"
  by (induction n arbitrary: c) (simp_all add: counter_get_append counter_set_append)

lemma fold_count_elements:
  assumes "distinct (map fst (m @ kvs))" and "list_all (\<lambda>c. 0 < c) (map snd kvs)"
  shows "fold (\<lambda>x m. counter_set m x (counter_get m x + 1)) (elements kvs) m = m @ kvs"
  using assms
proof (induction kvs arbitrary: m)
  case Nil
  then show ?case by (simp add: elements_def)
next
  case (Cons kv kvs)
  obtain k c where kv: "kv = (k, c)" by (cases kv)
  have notin: "k \<notin> fst ` set m"
    using Cons.prems(1) by (auto simp: kv)
  obtain n where c: "nat c = Suc n"
    using Cons.prems(2) by (cases "nat c") (auto simp: kv)
  then have c': "c = 1 + int n" by linarith
  have first: "counter_set m k (counter_get m k + 1) = m @ [(k, 1)]"
    using notin counter_set_append [of k m "[]" 1] by (simp add: counter_get_absent)
  have "fold (\<lambda>x m. counter_set m x (counter_get m x + 1)) (replicate (nat c) k) m
          = fold (\<lambda>x m. counter_set m x (counter_get m x + 1)) (replicate n k) (m @ [(k, 1)])"
    unfolding c replicate_Suc fold_Cons comp_apply first ..
  also have "\<dots> = m @ [(k, c)]"
    unfolding fold_count_block [OF notin] c' ..
  finally have block: "fold (\<lambda>x m. counter_set m x (counter_get m x + 1)) (replicate (nat c) k) m
                 = m @ [(k, c)]" .
  have "distinct (map fst ((m @ [(k, c)]) @ kvs))"
    using Cons.prems(1) by (simp add: kv)
  from Cons.IH [OF this] Cons.prems(2) show ?case
    by (simp add: kv elements_Cons block del: fold_replicate)
qed

lemma Counter_elements:
  "wf_counter kvs \<Longrightarrow> Counter (elements kvs) = kvs"
  using fold_count_elements [of "[]" kvs] by (simp add: Counter_def wf_counter_def)

lemma wf_reference_counter: "wf_counter reference_counter"
proof -
  have "map fst reference_counter = ITEMS"
    by (simp add: reference_counter_def length_ITEMS)
  moreover have "list_all (\<lambda>c. 0 < c) (map snd reference_counter)"
    by (simp add: reference_counter_def length_ITEMS FIRST_24_FREQUENCY_def
        LAST_12_FREQUENCY_def list_all_iff)
  ultimately show ?thesis
    by (simp add: wf_counter_def distinct_ITEMS)
qed

lemma reference_try_block:
  "try_block tape_shuffle create_master_pool reference_tape = (Inr reference_boards, [])"
proof -
  have "Counter create_master_pool = reference_counter"
    by (simp add: master_pool_elements Counter_elements wf_reference_counter)
  moreover have "length reference_windows = NUM_BOARDS"
    by (simp add: reference_windows_def NUM_BOARDS_def)
  ultimately show ?thesis
    using window_run [OF wf_reference_counter reference_windows_fit, of "[]" "[]"]
    by (simp add: try_block_def reference_tape_windows reference_boards_windows)
qed

lemma length_reference_boards: "length reference_boards = NUM_BOARDS"
  by (simp add: reference_boards_def NUM_BOARDS_def)

lemma reference_attempts:
  "attempts (\<lambda>item. True) tape_shuffle create_master_pool (Suc n) reference_tape
     = (Some (Inr reference_boards), [])"
  unfolding attempts.simps(2)
  using reference_try_block length_reference_boards
  by (simp add: try_block_def list_all_iff del: build_boards.simps)

lemma reference_run:
  "generate_boards (\<lambda>item. True) tape_shuffle reference_tape create_master_pool 1000
     = (Inr reference_boards, [])"
proof -
  have n: "nat 1000 = Suc 999" by simp
  show ?thesis
    unfolding generate_boards_def n reference_attempts by simp
qed

lemma reference_run_once:
  "generate_boards (\<lambda>item. True) tape_shuffle reference_tape create_master_pool 1
     = (Inr reference_boards, [])"
proof -
  have n: "nat 1 = Suc 0" by simp
  show ?thesis
    unfolding generate_boards_def n reference_attempts by simp
qed

lemma map_counter_get_zip:
  "distinct ks \<Longrightarrow> length ks = length cs \<Longrightarrow> map (counter_get (zip ks cs)) ks = cs"
proof (induction ks arbitrary: cs)
  case Nil
  then show ?case by simp
next
  case (Cons k ks)
  then obtain c cs' where cs: "cs = c # cs'" by (cases cs) auto
  have "map (\<lambda>a. if k = a then c else counter_get (zip ks cs') a) ks
          = map (counter_get (zip ks cs')) ks"
    using Cons.prems(1) by (intro map_cong) auto
  moreover have "map (counter_get (zip ks cs')) ks = cs'"
    using Cons.prems by (intro Cons.IH) (simp_all add: cs)
  ultimately show ?case by (simp add: cs)
qed

lemma count_list_master_pool:
  "count_list create_master_pool x = nat (counter_get reference_counter x)"
proof -
  have "distinct (map fst reference_counter)"
    using wf_reference_counter by (simp add: wf_counter_def)
  from count_elements [OF this, of x] show ?thesis
    by (simp add: master_pool_elements count_mset)
qed

lemma master_pool_counts:
  "map (count_list create_master_pool) ITEMS = replicate 24 7 @ replicate 12 6"
proof -
  have "map (counter_get reference_counter) ITEMS
          = replicate 24 (int FIRST_24_FREQUENCY) @ replicate 12 (int LAST_12_FREQUENCY)"
    unfolding reference_counter_def
    by (rule map_counter_get_zip) (simp_all add: distinct_ITEMS length_ITEMS)
  then have "map nat (map (counter_get reference_counter) ITEMS) = replicate 24 7 @ replicate 12 6"
    by (simp add: FIRST_24_FREQUENCY_def LAST_12_FREQUENCY_def)
  moreover have "count_list create_master_pool = (\<lambda>x. nat (counter_get reference_counter x))"
    by (rule ext) (rule count_list_master_pool)
  ultimately show ?thesis
    by (simp add: comp_def)
qed

lemma length_master_pool: "length create_master_pool = 240"
  by code_simp

lemma attempts_Suc:
  "attempts hashable shuffle master_pool (Suc n) g
     = (if attempt_passed_over hashable shuffle master_pool g
        then attempts hashable shuffle master_pool n (snd (attempt hashable shuffle master_pool g))
        else (Some (fst (attempt hashable shuffle master_pool g)),
              snd (attempt hashable shuffle master_pool g)))"
proof (cases "list_all hashable master_pool")
  case False
  then show ?thesis
    by (simp add: attempt_passed_over_def attempt_def)
next
  case True
  obtain r g1 where att: "build_boards shuffle NUM_BOARDS g (Counter master_pool) [] = (r, g1)"
    by (cases "build_boards shuffle NUM_BOARDS g (Counter master_pool) []")
  show ?thesis
  proof (cases r)
    case (Inl e)
    with True show ?thesis
      unfolding attempts.simps(2) attempt_passed_over_def attempt_def try_block_def att
      by simp
  next
    case (Inr boards)
    with True show ?thesis
      unfolding attempts.simps(2) attempt_passed_over_def attempt_def try_block_def att
      by simp
  qed
qed

lemma state_after_Suc:
  "state_after hashable shuffle master_pool (Suc k) g
     = state_after hashable shuffle master_pool k (snd (attempt hashable shuffle master_pool g))"
  unfolding state_after_def funpow_Suc_right comp_apply ..

lemma state_after_0: "state_after hashable shuffle master_pool 0 g = g"
  by (simp add: state_after_def)

lemma attempts_None_iff:
  "fst (attempts hashable shuffle master_pool n g) = None \<longleftrightarrow>
     (\<forall>k<n. attempt_passed_over hashable shuffle master_pool
              (state_after hashable shuffle master_pool k g))"
proof (induction n arbitrary: g)
  case 0
  then show ?case by simp
next
  case (Suc n)
  show ?case
  proof (cases "attempt_passed_over hashable shuffle master_pool g")
    case False
    have "fst (attempts hashable shuffle master_pool (Suc n) g) \<noteq> None"
      unfolding attempts_Suc using False by simp
    moreover have "\<exists>k<Suc n. \<not> attempt_passed_over hashable shuffle master_pool
        (state_after hashable shuffle master_pool k g)"
      by (rule exI [of _ 0]) (simp add: False state_after_0)
    ultimately show ?thesis by blast
  next
    case True
    have eq: "attempts hashable shuffle master_pool (Suc n) g
        = attempts hashable shuffle master_pool n (snd (attempt hashable shuffle master_pool g))"
      unfolding attempts_Suc using True by simp
    have "(\<forall>k<Suc n. attempt_passed_over hashable shuffle master_pool
              (state_after hashable shuffle master_pool k g))
        \<longleftrightarrow> (\<forall>k<n. attempt_passed_over hashable shuffle master_pool
              (state_after hashable shuffle master_pool (Suc k) g))"
      using True by (simp add: All_less_Suc2 state_after_0)
    then show ?thesis
      using Suc.IH [of "snd (attempt hashable shuffle master_pool g)"]
      by (simp only: eq state_after_Suc)
  qed
qed

lemma attempts_state:
  "\<exists>k\<le>n. snd (attempts hashable shuffle master_pool n g)
            = state_after hashable shuffle master_pool k g \<and>
     (fst (attempts hashable shuffle master_pool n g) = None \<longrightarrow> k = n)"
proof (induction n arbitrary: g)
  case 0
  show ?case by (rule exI [of _ 0]) (simp add: state_after_def)
next
  case (Suc n)
  show ?case
  proof (cases "attempt_passed_over hashable shuffle master_pool g")
    case False
    have eq: "attempts hashable shuffle master_pool (Suc n) g
        = (Some (fst (attempt hashable shuffle master_pool g)),
           snd (attempt hashable shuffle master_pool g))"
      unfolding attempts_Suc using False by simp
    show ?thesis
      unfolding eq by (rule exI [of _ "Suc 0"]) (simp add: state_after_def)
  next
    case True
    have eq: "attempts hashable shuffle master_pool (Suc n) g
        = attempts hashable shuffle master_pool n (snd (attempt hashable shuffle master_pool g))"
      unfolding attempts_Suc using True by simp
    from Suc.IH [of "snd (attempt hashable shuffle master_pool g)"] obtain k where k1: "k \<le> n"
      and k2: "snd (attempts hashable shuffle master_pool n
                     (snd (attempt hashable shuffle master_pool g)))
             = state_after hashable shuffle master_pool k
                 (snd (attempt hashable shuffle master_pool g))"
      and k3: "fst (attempts hashable shuffle master_pool n
                     (snd (attempt hashable shuffle master_pool g))) = None
             \<longrightarrow> k = n"
      by (elim exE conjE)
    show ?thesis
    proof (intro exI [of _ "Suc k"] conjI impI)
      show "Suc k \<le> Suc n"
        using k1 by simp
      show "snd (attempts hashable shuffle master_pool (Suc n) g)
              = state_after hashable shuffle master_pool (Suc k) g"
        unfolding eq state_after_Suc by (rule k2)
      assume "fst (attempts hashable shuffle master_pool (Suc n) g) = None"
      then have "fst (attempts hashable shuffle master_pool n
                       (snd (attempt hashable shuffle master_pool g))) = None"
        unfolding eq .
      with k3 show "Suc k = Suc n" by simp
    qed
  qed
qed

lemma attempt_escapes:
  assumes "\<not> attempt_passed_over hashable shuffle master_pool g"
    and "fst (attempt hashable shuffle master_pool g) = Inl e"
  shows "(e = TypeError \<and> \<not> list_all hashable master_pool) \<or>
         (\<not> is_Exception e \<and> list_all hashable master_pool \<and>
          (\<exists>g0. fst (try_block shuffle master_pool g0) = Inl e))"
  using assms
  by (cases "list_all hashable master_pool")
    (auto simp: attempt_passed_over_def attempt_def split: sum.splits)

lemma attempts_Inl:
  assumes "fst (attempts hashable shuffle master_pool n g) = Some (Inl e)"
  shows "(e = TypeError \<and> \<not> list_all hashable master_pool) \<or>
         (\<not> is_Exception e \<and> list_all hashable master_pool \<and>
          (\<exists>g0. fst (try_block shuffle master_pool g0) = Inl e))"
  using assms
proof (induction n arbitrary: g)
  case 0
  then show ?case by simp
next
  case (Suc n)
  show ?case
  proof (cases "attempt_passed_over hashable shuffle master_pool g")
    case True
    with Suc.prems [unfolded attempts_Suc]
    have "fst (attempts hashable shuffle master_pool n
                 (snd (attempt hashable shuffle master_pool g))) = Some (Inl e)"
      by simp
    then show ?thesis by (rule Suc.IH)
  next
    case False
    with Suc.prems [unfolded attempts_Suc]
    have "fst (attempt hashable shuffle master_pool g) = Inl e"
      by simp
    with False show ?thesis by (rule attempt_escapes)
  qed
qed

lemma generate_boards_fst:
  "fst (generate_boards hashable shuffle g master_pool max_attempts)
     = (case fst (attempts hashable shuffle master_pool (nat max_attempts) g) of
          Some result \<Rightarrow> result | None \<Rightarrow> Inl (RuntimeError max_attempts))"
  by (simp add: generate_boards_def split: prod.splits option.splits)

lemma generate_boards_snd:
  "snd (generate_boards hashable shuffle g master_pool max_attempts)
     = snd (attempts hashable shuffle master_pool (nat max_attempts) g)"
  by (simp add: generate_boards_def split: prod.splits option.splits)

lemma generate_boards_Inl:
  assumes "fst (generate_boards hashable shuffle g master_pool max_attempts) = Inl err"
  shows "(err = RuntimeError max_attempts \<and>
          fst (attempts hashable shuffle master_pool (nat max_attempts) g) = None) \<or>
         (err = TypeError \<and> \<not> list_all hashable master_pool) \<or>
         (\<not> is_Exception err \<and> list_all hashable master_pool \<and>
          (\<exists>g0. fst (try_block shuffle master_pool g0) = Inl err))"
proof (cases "fst (attempts hashable shuffle master_pool (nat max_attempts) g)")
  case None
  with assms show ?thesis
    by (simp add: generate_boards_fst)
next
  case (Some result)
  with assms have "fst (attempts hashable shuffle master_pool (nat max_attempts) g) = Some (Inl err)"
    by (simp add: generate_boards_fst)
  from attempts_Inl [OF this] show ?thesis
    by blast
qed

text \<open>
  What the loop tests: \<^const>\<open>generate_boards\<close> ends with \<^verbatim>\<open>RuntimeError\<close> exactly when every
  one of the \<^verbatim>\<open>max_attempts\<close> iterations is passed over; it ends after at most
  \<^verbatim>\<open>max_attempts\<close> iterations; and with \<^verbatim>\<open>max_attempts = 0\<close> it raises at once.
\<close>

lemma generate_boards_RuntimeError_iff:
  "(fst (generate_boards hashable shuffle g master_pool max_attempts)
      = Inl (RuntimeError max_attempts)
      \<longleftrightarrow> (\<forall>k < nat max_attempts. attempt_passed_over hashable shuffle master_pool
                 (state_after hashable shuffle master_pool k g))) \<and>
   (\<exists>k \<le> nat max_attempts.
      snd (generate_boards hashable shuffle g master_pool max_attempts)
        = state_after hashable shuffle master_pool k g) \<and>
   generate_boards hashable shuffle g master_pool 0 = (Inl (RuntimeError 0), g)"
proof (intro conjI)
  show "fst (generate_boards hashable shuffle g master_pool max_attempts)
      = Inl (RuntimeError max_attempts)
      \<longleftrightarrow> (\<forall>k < nat max_attempts. attempt_passed_over hashable shuffle master_pool
                 (state_after hashable shuffle master_pool k g))"
  proof
    assume "fst (generate_boards hashable shuffle g master_pool max_attempts)
      = Inl (RuntimeError max_attempts)"
    from generate_boards_Inl [OF this]
    have "fst (attempts hashable shuffle master_pool (nat max_attempts) g) = None"
      by auto
    then show "\<forall>k < nat max_attempts. attempt_passed_over hashable shuffle master_pool
                 (state_after hashable shuffle master_pool k g)"
      by (simp add: attempts_None_iff)
  next
    assume "\<forall>k < nat max_attempts. attempt_passed_over hashable shuffle master_pool
                 (state_after hashable shuffle master_pool k g)"
    then have "fst (attempts hashable shuffle master_pool (nat max_attempts) g) = None"
      by (simp add: attempts_None_iff)
    then show "fst (generate_boards hashable shuffle g master_pool max_attempts)
      = Inl (RuntimeError max_attempts)"
      by (simp add: generate_boards_fst)
  qed
  show "\<exists>k \<le> nat max_attempts.
      snd (generate_boards hashable shuffle g master_pool max_attempts)
        = state_after hashable shuffle master_pool k g"
    unfolding generate_boards_snd
    using attempts_state [of "nat max_attempts" hashable shuffle master_pool g]
    by blast
  show "generate_boards hashable shuffle g master_pool 0 = (Inl (RuntimeError 0), g)"
    by (simp add: generate_boards_def)
qed

lemma mult_boards: "NUM_BOARDS * BOARD_SIZE = 240"
  by (simp add: NUM_BOARDS_def BOARD_SIZE_def)

text \<open>
  Claim C1 (conservation). Whenever \<^const>\<open>generate_boards\<close> returns on the reference master pool,
  with a shuffle that reorders, the list holds 15 boards, the boards flattened are a
  reordering of the pool, and the occurrences of the catalogue items across the boards are
  7 for each of the first 24 and 6 for each of the last 12.
\<close>

theorem generate_boards_conservation:
  assumes "shuffle_perm shuffle"
    and "generate_boards hashable shuffle g create_master_pool max_attempts = (Inr boards, g')"
  shows "length boards = 15 \<and> mset (concat boards) = mset create_master_pool \<and>
         map (count_list (concat boards)) ITEMS = replicate 24 7 @ replicate 12 6"
proof -
  from generate_boards_Inr [OF assms(2)] obtain g0
    where att: "try_block shuffle create_master_pool g0 = (Inr boards, g')"
      and len: "length boards = NUM_BOARDS"
    by blast
  have eq: "mset (concat boards) = mset create_master_pool"
    using assms(1) att len by (rule try_block_full_mset) (simp add: length_master_pool mult_boards)
  have "count_list (concat boards) = count_list create_master_pool"
  proof
    fix x
    show "count_list (concat boards) x = count_list create_master_pool x"
      using eq by (metis count_mset)
  qed
  with eq len show ?thesis
    by (simp add: master_pool_counts NUM_BOARDS_def)
qed

text \<open>
  The hypotheses of C1 hold for the tape and the boards of the reference run.
\<close>

theorem generate_boards_conservation_witness:
  "shuffle_perm (tape_shuffle :: ((py_exception + nat) list, string) shuffle) \<and>
   generate_boards (\<lambda>item. True) tape_shuffle reference_tape create_master_pool 1000 = (Inr reference_boards, []) \<and>
   length reference_boards = 15 \<and>
   mset (concat reference_boards) = mset create_master_pool \<and>
   map (count_list (concat reference_boards)) ITEMS = replicate 24 7 @ replicate 12 6"
  using generate_boards_conservation [OF shuffle_perm_tape reference_run]
    shuffle_perm_tape reference_run
  by blast

text \<open>
  Claim C2 (no duplicate within a board). Every board of a returned list has exactly 16 items,
  pairwise distinct, so the set of its items has 16 elements. This needs nothing of the
  shuffle.
\<close>

theorem generate_boards_no_duplicates:
  assumes "generate_boards hashable shuffle g master_pool max_attempts = (Inr boards, g')"
  shows "\<forall>board \<in> set boards. length board = 16 \<and> distinct board \<and> card (set board) = 16"
proof -
  from generate_boards_Inr [OF assms] obtain g0
    where "try_block shuffle master_pool g0 = (Inr boards, g')"
    by blast
  then have "list_all valid_board boards"
    by (simp add: try_block_valid)
  then show ?thesis
    by (auto simp: list_all_iff valid_board_def BOARD_SIZE_def distinct_card)
qed

text \<open>
  C2 at the reference run, for its eighth board.
\<close>

theorem generate_boards_no_duplicates_witness:
  "generate_boards (\<lambda>item. True) tape_shuffle reference_tape create_master_pool 1000 = (Inr reference_boards, []) \<and>
   reference_boards ! 7 \<in> set reference_boards \<and>
   length (reference_boards ! 7) = 16 \<and> distinct (reference_boards ! 7) \<and>
   card (set (reference_boards ! 7)) = 16"
proof -
  have "reference_boards ! 7 \<in> set reference_boards"
    by (rule nth_mem) (simp add: length_reference_boards NUM_BOARDS_def)
  with generate_boards_no_duplicates [OF reference_run] reference_run show ?thesis
    by blast
qed

text \<open>
  Claim C3 (no two boards with the same set of items) does not hold of
  \<^const>\<open>generate_boards\<close>: nothing in it compares a board with the earlier ones. On the reference
  pool, with the shuffles of the reference tape, it returns 15 boards of which the fourth and
  the fifth hold the same items (\<^verbatim>\<open>run_tests\<close> would then raise in its third test).
\<close>

theorem generate_boards_identical_boards:
  "generate_boards (\<lambda>item. True) tape_shuffle reference_tape create_master_pool 1000 = (Inr reference_boards, []) \<and>
   length reference_boards = 15 \<and>
   set (reference_boards ! 3) = set (reference_boards ! 4)"
proof -
  have "reference_boards ! 3 = reference_boards ! 4"
    by (simp add: reference_boards_def)
  then show ?thesis
    using reference_run length_reference_boards by (simp add: NUM_BOARDS_def)
qed

text \<open>
  Claim C4 (an error exactly when no valid board set is produced) does not hold of
  \<^const>\<open>generate_boards\<close>: its loop tests the number of boards only. On the reference pool, with
  the shuffles of the reference tape and one attempt allowed, that attempt produces no valid
  Board Set (two of its boards hold the same items), and yet nothing is raised: the set is
  returned. This is the missing comparison of C3, seen from the retry loop.
\<close>

theorem generate_boards_returns_invalid_set:
  "generate_boards (\<lambda>item. True) tape_shuffle reference_tape create_master_pool 1
     = (Inr reference_boards, []) \<and>
   set (reference_boards ! 3) = set (reference_boards ! 4) \<and>
   \<not> valid_board_set create_master_pool reference_boards"
proof -
  have eq: "reference_boards ! 3 = reference_boards ! 4"
    by (simp add: reference_boards_def)
  have len: "length reference_boards = 15"
    by (simp add: length_reference_boards NUM_BOARDS_def)
  have "\<not> distinct (map set reference_boards)"
  proof
    assume "distinct (map set reference_boards)"
    then have "map set reference_boards ! 3 \<noteq> map set reference_boards ! 4"
      by (simp add: distinct_conv_nth len)
    then show False
      by (simp add: len eq)
  qed
  then have "\<not> valid_board_set create_master_pool reference_boards"
    by (simp add: valid_board_set_def)
  with reference_run_once eq show ?thesis
    by simp
qed

text \<open>
  Claim C5 (one shuffled pass per board). The inner loop is the scan of the specification:
  started on an empty board it yields the board \<^const>\<open>spec_scan\<close> builds, the set of its
  items, and the counter with one decrement per accepted token. Each board of an attempt
  shuffles afresh the elements of the counter as it then stands, and those elements hold every
  item as often as its count says; a decrement lowers the count of its item by one and no
  other.
\<close>

theorem fill_board_spec_scan:
  "fill_board tokens ([], {}, available)
     = (spec_scan tokens [], set (spec_scan tokens []),
        fold (\<lambda>item av. counter_dec av item) (spec_scan tokens []) available) \<and>
   build_boards shuffle (Suc n) g available boards
     = (case shuffle g (elements available) of
          (Inl e, g') \<Rightarrow> (Inl e, g')
        | (Inr shuffled, g') \<Rightarrow>
            if length (spec_scan shuffled []) \<noteq> BOARD_SIZE then (Inr boards, g')
            else build_boards shuffle n g'
                   (fold (\<lambda>item av. counter_dec av item) (spec_scan shuffled []) available)
                   (boards @ [spec_scan shuffled []])) \<and>
   (distinct (map fst available) \<longrightarrow>
      (\<forall>x. count (mset (elements available)) x = nat (counter_get available x)) \<and>
      (\<forall>item x. counter_get (counter_dec available item) x
                  = (if x = item then counter_get available item - 1 else counter_get available x)))"
proof (intro conjI impI allI)
  show fill: "fill_board tokens ([], {}, available)
     = (spec_scan tokens [], set (spec_scan tokens []),
        fold (\<lambda>item av. counter_dec av item) (spec_scan tokens []) available)" for tokens
    using fill_board_scan [of tokens "[]" available] by simp
  show "build_boards shuffle (Suc n) g available boards
     = (case shuffle g (elements available) of
          (Inl e, g') \<Rightarrow> (Inl e, g')
        | (Inr shuffled, g') \<Rightarrow>
            if length (spec_scan shuffled []) \<noteq> BOARD_SIZE then (Inr boards, g')
            else build_boards shuffle n g'
                   (fold (\<lambda>item av. counter_dec av item) (spec_scan shuffled []) available)
                   (boards @ [spec_scan shuffled []]))"
    by (simp add: fill split: prod.splits sum.splits)
next
  fix x
  assume "distinct (map fst available)"
  then show "count (mset (elements available)) x = nat (counter_get available x)"
    by (rule count_elements)
next
  fix item x
  assume "distinct (map fst available)"
  then show "counter_get (counter_dec available item) x
                  = (if x = item then counter_get available item - 1 else counter_get available x)"
    by (rule counter_get_dec)
qed

text \<open>
  C5 at a counter of two keys.
\<close>

theorem fill_board_spec_scan_witness:
  "distinct (map fst [(''a'', 2::int), (''b'', 1)]) \<and>
   fill_board [''b'', ''a'', ''a''] ([], {}, [(''a'', 2), (''b'', 1)])
     = ([''b'', ''a''], {''b'', ''a''}, [(''a'', 1)]) \<and>
   count (mset (elements [(''a'', 2), (''b'', 1)])) ''a'' = 2 \<and>
   counter_get (counter_dec [(''a'', 2), (''b'', 1)] ''b'') ''b'' = 0"
proof -
  have d: "distinct (map fst [(''a'', 2::int), (''b'', 1)])"
    by simp
  have scan: "spec_scan [''b'', ''a'', ''a''] [] = [''b'', ''a'']"
    by code_simp
  have dec: "fold (\<lambda>item av. counter_dec av item) [''b'', ''a''] [(''a'', 2), (''b'', 1)] = [(''a'', 1)]"
    by code_simp
  have get: "counter_get [(''a'', 2), (''b'', 1)] ''a'' = 2" "counter_get [(''a'', 2), (''b'', 1)] ''b'' = 1"
    by code_simp+
  note inst = fill_board_spec_scan [of "[''b'', ''a'', ''a'']" "[(''a'', 2), (''b'', 1)]"
      tape_shuffle 0 "[]" "[]"]
  from inst have "fill_board [''b'', ''a'', ''a''] ([], {}, [(''a'', 2), (''b'', 1)])
     = ([''b'', ''a''], {''b'', ''a''}, [(''a'', 1)])"
    by (simp only: scan dec) simp
  moreover from inst d have "count (mset (elements [(''a'', 2), (''b'', 1)])) ''a'' = 2"
    and "counter_get (counter_dec [(''a'', 2), (''b'', 1)] ''b'') ''b'' = 0"
    by (simp_all only: get) simp_all
  ultimately show ?thesis
    using d by blast
qed

text \<open>
  Claim C6 (all or nothing). A board left short after its pass ends the attempt with the boards
  built before it; an attempt that ends with fewer than \<^const>\<open>NUM_BOARDS\<close> boards contributes
  nothing, and the next attempt starts from the master pool again with only the state of
  the random source handed on; and a returned list has \<^const>\<open>NUM_BOARDS\<close> boards of
  \<^const>\<open>BOARD_SIZE\<close> items each.
\<close>

theorem failed_attempt_discarded:
  "(shuffle g (elements available) = (Inr tokens, g1) \<and>
      length (fst (fill_board tokens ([], {}, available))) < BOARD_SIZE
      \<longrightarrow> build_boards shuffle (Suc n) g available boards = (Inr boards, g1)) \<and>
   (fst (attempt hashable shuffle master_pool g) = Inr partial \<and> length partial \<noteq> NUM_BOARDS
      \<longrightarrow> attempts hashable shuffle master_pool (Suc n) g
            = attempts hashable shuffle master_pool n
                (snd (attempt hashable shuffle master_pool g))) \<and>
   (generate_boards hashable shuffle g master_pool max_attempts = (Inr returned, g')
      \<longrightarrow> length returned = NUM_BOARDS \<and> (\<forall>board \<in> set returned. length board = BOARD_SIZE))"
proof (intro conjI impI)
  assume "shuffle g (elements available) = (Inr tokens, g1) \<and>
      length (fst (fill_board tokens ([], {}, available))) < BOARD_SIZE"
  then show "build_boards shuffle (Suc n) g available boards = (Inr boards, g1)"
    by (auto split: prod.splits)
next
  assume a: "fst (attempt hashable shuffle master_pool g) = Inr partial \<and>
      length partial \<noteq> NUM_BOARDS"
  have h: "list_all hashable master_pool"
    using a by (cases "list_all hashable master_pool") (simp_all add: attempt_def)
  with a have "fst (try_block shuffle master_pool g) = Inr partial"
    by (simp add: attempt_def)
  with a h have "attempt_passed_over hashable shuffle master_pool g"
    by (simp add: attempt_passed_over_def)
  then show "attempts hashable shuffle master_pool (Suc n) g
            = attempts hashable shuffle master_pool n
                (snd (attempt hashable shuffle master_pool g))"
    by (simp only: attempts_Suc if_True)
next
  assume gen: "generate_boards hashable shuffle g master_pool max_attempts = (Inr returned, g')"
  from generate_boards_Inr [OF gen] obtain g0
    where att: "try_block shuffle master_pool g0 = (Inr returned, g')"
      and len: "length returned = NUM_BOARDS"
    by blast
  from len show "length returned = NUM_BOARDS" .
  from try_block_valid [OF att] show "\<forall>board \<in> set returned. length board = BOARD_SIZE"
    by (simp add: list_all_iff valid_board_def)
qed

text \<open>
  C6 at a pool of two tokens (a short board, a discarded attempt) and at the reference run
  (a returned list).
\<close>

theorem failed_attempt_discarded_witness:
  "tape_shuffle [Inr 1] (elements [(''a'', 1), (''b'', 1)]) = (Inr [''b'', ''a''], []) \<and>
   length (fst (fill_board [''b'', ''a''] ([], {}, [(''a'', 1), (''b'', 1)]))) < BOARD_SIZE \<and>
   build_boards tape_shuffle (Suc 14) [Inr 1] [(''a'', 1), (''b'', 1)] [] = (Inr [], []) \<and>
   fst (attempt (\<lambda>item. True) tape_shuffle [''a'', ''b''] [Inr 1]) = Inr [] \<and>
   length ([] :: string list list) \<noteq> NUM_BOARDS \<and>
   attempts (\<lambda>item. True) tape_shuffle [''a'', ''b''] (Suc 14) [Inr 1]
     = attempts (\<lambda>item. True) tape_shuffle [''a'', ''b''] 14 [] \<and>
   generate_boards (\<lambda>item. True) tape_shuffle reference_tape create_master_pool 1000 = (Inr reference_boards, []) \<and>
   length reference_boards = NUM_BOARDS \<and>
   reference_boards ! 0 \<in> set reference_boards \<and>
   length (reference_boards ! 0) = BOARD_SIZE"
proof -
  have sh: "tape_shuffle [Inr 1] (elements [(''a'', 1), (''b'', 1)]) = (Inr [''b'', ''a''], [])"
    by code_simp
  have short: "length (fst (fill_board [''b'', ''a''] ([], {}, [(''a'', 1), (''b'', 1)]))) < BOARD_SIZE"
    by code_simp
  have att: "attempt (\<lambda>item. True) tape_shuffle [''a'', ''b''] [Inr 1] = (Inr [], [])"
    by code_simp
  have att1: "fst (attempt (\<lambda>item. True) tape_shuffle [''a'', ''b''] [Inr 1]) = Inr []"
    and att2: "snd (attempt (\<lambda>item. True) tape_shuffle [''a'', ''b''] [Inr 1]) = []"
    unfolding att by simp_all
  have ne: "length ([] :: string list list) \<noteq> NUM_BOARDS"
    by (simp add: NUM_BOARDS_def)
  have mem: "reference_boards ! 0 \<in> set reference_boards"
    by (rule nth_mem) (simp add: length_reference_boards NUM_BOARDS_def)
  note small = failed_attempt_discarded [where shuffle = tape_shuffle and g = "[Inr 1]"
      and available = "[(''a'', 1), (''b'', 1)]" and tokens = "[''b'', ''a'']" and ?g1.0 = "[]"
      and n = 14 and boards = "[]" and master_pool = "[''a'', ''b'']" and partial = "[]"
      and hashable = "\<lambda>item. True"]
  from small sh short
  have b: "build_boards tape_shuffle (Suc 14) [Inr 1] [(''a'', 1), (''b'', 1)] [] = (Inr [], [])"
    by blast
  from small att1 ne
  have "attempts (\<lambda>item. True) tape_shuffle [''a'', ''b''] (Suc 14) [Inr 1]
          = attempts (\<lambda>item. True) tape_shuffle [''a'', ''b''] 14
              (snd (attempt (\<lambda>item. True) tape_shuffle [''a'', ''b''] [Inr 1]))"
    by blast
  then have c: "attempts (\<lambda>item. True) tape_shuffle [''a'', ''b''] (Suc 14) [Inr 1]
          = attempts (\<lambda>item. True) tape_shuffle [''a'', ''b''] 14 []"
    unfolding att2 .
  from failed_attempt_discarded [where shuffle = tape_shuffle and g = reference_tape
      and master_pool = create_master_pool and max_attempts = 1000
      and returned = reference_boards and g' = "[]" and hashable = "\<lambda>item. True"]
    reference_run mem
  have d: "length reference_boards = NUM_BOARDS" and e: "length (reference_boards ! 0) = BOARD_SIZE"
    by blast+
  from sh short b att1 ne c reference_run d mem e show ?thesis
    by (intro conjI)
qed

text \<open>
  Claim C7 (the master pool). In the pool that \<^const>\<open>create_master_pool\<close> builds, each of the
  first 24 catalogue items occurs 7 times and each of the last 12 occurs 6 times; the pool has
  no other item and 240 tokens, the sum of the counts.
\<close>

theorem create_master_pool_counts:
  "map (count_list create_master_pool) ITEMS
     = replicate 24 FIRST_24_FREQUENCY @ replicate 12 LAST_12_FREQUENCY \<and>
   FIRST_24_FREQUENCY = 7 \<and> LAST_12_FREQUENCY = 6 \<and>
   length ITEMS = 36 \<and> distinct ITEMS \<and> set create_master_pool = set ITEMS \<and>
   length create_master_pool = 24 * FIRST_24_FREQUENCY + 12 * LAST_12_FREQUENCY \<and>
   length create_master_pool = 240"
proof -
  have "set (elements reference_counter) = fst ` set reference_counter"
    using wf_reference_counter by (force simp: set_elements wf_counter_def list_all_iff)
  also have "\<dots> = set (map fst reference_counter)"
    by simp
  also have "map fst reference_counter = ITEMS"
    by (simp add: reference_counter_def length_ITEMS)
  finally have "set create_master_pool = set ITEMS"
    by (simp add: master_pool_elements)
  then show ?thesis
    by (simp add: master_pool_counts length_ITEMS distinct_ITEMS length_master_pool
        FIRST_24_FREQUENCY_def LAST_12_FREQUENCY_def)
qed



lemma create_master_pool_of_module:
  "create_master_pool_of ITEMS FIRST_24_FREQUENCY LAST_12_FREQUENCY = create_master_pool"
  by (simp add: create_master_pool_of_def create_master_pool_def)

text \<open>
  At the constants of the module the assertion of \<^verbatim>\<open>main\<close> holds and \<^verbatim>\<open>generate_boards\<close>
  is called on the reference pool.
\<close>

lemma main_reference:
  "main shuffle g = generate_boards (\<lambda>item. True) shuffle g create_master_pool 1000"
  by (simp add: main_def main_of_def create_master_pool_of_module length_master_pool)









end
